theory Spec2Isabelle
  imports Main "HOL-Library.Sublist" "HOL-Library.Multiset"
begin

section \<open>Messages\<close>

text \<open>
  \<open>bb::timeval_t\<close> is a totally ordered time stamp and \<open>bb::ptime_duration_t\<close> a signed
  duration; both are integers here. A message is its header time (\<open>msg.hdr->time_sent\<close>) and
  an opaque body. \<open>Msg::clone\<close> copies a message, so a clone is the same value.
\<close>

type_synonym timeval = int
type_synonym duration = int

record msg =
  time_sent :: timeval
  body :: nat

section \<open>The send transports of bbreader\<close>

text \<open>
  \<open>bb::ISendTransport\<close> has the four library writers (chosen by \<open>--quiet\<close>, \<open>--binary\<close>,
  \<open>--json\<close>, text otherwise) and the two decorators of bbreader. A library writer is
  modelled by the list of messages it has been sent, in order; the bytes it makes of them
  are outside the model. A decorator holds the transport it wraps (\<open>out\<close>), its count
  (\<open>num\<close>) and its \<open>std::list\<close> buffer (\<open>buf\<close>, front first).
\<close>

datatype writer = DevNullSendTransport | DGramWriteTransport | JsonWriteTransport | TextWriteTransport

datatype transport =
    Writer writer "msg list"
  | TailedOutput transport nat "msg list"
  | TrimmedOutput transport nat "msg list"

text \<open>
  The loop of \<open>TailedOutput::send\<close>: while the buffer is longer than \<open>num\<close>, delete the front
  and pop it.
\<close>

fun tail_pop :: "nat \<Rightarrow> msg list \<Rightarrow> msg list" where
  "tail_pop num [] = []"
| "tail_pop num (m # ms) = (if length (m # ms) > num then tail_pop num ms else m # ms)"

text \<open>
  The loop of \<open>TrimmedOutput::send\<close>: while the buffer is longer than \<open>num\<close>, send the front to
  \<open>out\<close>, delete it and pop it. The function returns the messages sent to \<open>out\<close>, in the
  order they are sent, and the buffer that is left.
\<close>

fun trim_pop :: "nat \<Rightarrow> msg list \<Rightarrow> msg list \<times> msg list" where
  "trim_pop num [] = ([], [])"
| "trim_pop num (m # ms) =
     (if length (m # ms) > num
      then (case trim_pop num ms of (sent, rest) \<Rightarrow> (m # sent, rest))
      else ([], m # ms))"

text \<open>
  One call of \<open>TailedOutput::send\<close> on the buffer: push the clone at the back, then pop.
\<close>

definition tail_send :: "nat \<Rightarrow> msg list \<Rightarrow> msg \<Rightarrow> msg list" where
  "tail_send num buf m = tail_pop num (buf @ [m])"

text \<open>
  One call of \<open>TrimmedOutput::send\<close> on the buffer: push the clone at the back, then pop;
  the messages sent to \<open>out\<close> by this call and the buffer afterwards.
\<close>

definition trim_send :: "nat \<Rightarrow> msg list \<Rightarrow> msg \<Rightarrow> msg list \<times> msg list" where
  "trim_send num buf m = trim_pop num (buf @ [m])"

text \<open>Successive calls of \<open>TrimmedOutput::send\<close>: all that is sent to \<open>out\<close>, in order.\<close>

fun trim_sends :: "nat \<Rightarrow> msg list \<Rightarrow> msg list \<Rightarrow> msg list \<times> msg list" where
  "trim_sends num buf [] = ([], buf)"
| "trim_sends num buf (m # ms) =
     (case trim_send num buf m of
        (sent, rest) \<Rightarrow> (case trim_sends num rest ms of (sent', rest') \<Rightarrow> (sent @ sent', rest')))"

text \<open>
  \<open>sends t ms\<close> is the transport \<open>t\<close> after \<open>send\<close> has been called on it with each message
  of \<open>ms\<close> in turn. A \<open>TrimmedOutput\<close> calls \<open>out->send\<close> from inside its own \<open>send\<close>, on an
  \<open>out\<close> that the earlier calls have changed, so the recursion goes through the wrapped
  transport with the whole run of messages that reach it; \<open>sends_append\<close> and \<open>sends_foldl\<close>
  below show that this is one \<open>send\<close> after the other.
\<close>

fun sends :: "transport \<Rightarrow> msg list \<Rightarrow> transport" where
  "sends (Writer w rcvd) ms = Writer w (rcvd @ ms)"
| "sends (TailedOutput out num buf) ms = TailedOutput out num (foldl (tail_send num) buf ms)"
| "sends (TrimmedOutput out num buf) ms =
     (case trim_sends num buf ms of
        (sent, rest) \<Rightarrow> TrimmedOutput (sends out sent) num rest)"

definition send :: "transport \<Rightarrow> msg \<Rightarrow> transport" where
  "send t m = sends t [m]"

text \<open>
  The destructors, run when the last pointer to the outermost transport is dropped at the
  end of \<open>main\<close>. \<open>~TailedOutput\<close> sends every buffered message to \<open>out\<close>, front first, and
  then \<open>out\<close> is released; \<open>~TrimmedOutput\<close> deletes its buffer and releases \<open>out\<close>. The
  result is what the library writer at the bottom has been sent.
\<close>

fun depth :: "transport \<Rightarrow> nat" where
  "depth (Writer w rcvd) = 0"
| "depth (TailedOutput out num buf) = Suc (depth out)"
| "depth (TrimmedOutput out num buf) = Suc (depth out)"

lemma depth_sends: "depth (sends t ms) = depth t"
  by (induction t arbitrary: ms) (auto split: prod.splits)

function destroy :: "transport \<Rightarrow> msg list" where
  "destroy (Writer w rcvd) = rcvd"
| "destroy (TailedOutput out num buf) = destroy (sends out buf)"
| "destroy (TrimmedOutput out num buf) = destroy out"
  by pat_completeness auto
termination
  by (relation "measure depth") (auto simp: depth_sends)

text \<open>What the library writer at the bottom of a chain has been sent so far.\<close>

fun written :: "transport \<Rightarrow> msg list" where
  "written (Writer w rcvd) = rcvd"
| "written (TailedOutput out num buf) = written out"
| "written (TrimmedOutput out num buf) = written out"

text \<open>The buffer of a decorator (a library writer has none).\<close>

fun buf_of :: "transport \<Rightarrow> msg list" where
  "buf_of (Writer w rcvd) = []"
| "buf_of (TailedOutput out num buf) = buf"
| "buf_of (TrimmedOutput out num buf) = buf"

text \<open>
  The chain \<open>main\<close> builds (lines 337 to 350): the writer, wrapped in a \<open>TailedOutput\<close> when
  \<open>tail_len > 0\<close>, and that wrapped in a \<open>TrimmedOutput\<close> when \<open>trim_len > 0\<close>.
\<close>

definition build_out :: "writer \<Rightarrow> nat \<Rightarrow> nat \<Rightarrow> transport" where
  "build_out w tail_len trim_len =
     (let out0 = Writer w [];
          out1 = (if tail_len > 0 then TailedOutput out0 tail_len [] else out0)
      in if trim_len > 0 then TrimmedOutput out1 trim_len [] else out1)"

section \<open>The message handler\<close>

text \<open>
  An exception of the library (\<open>bb::Error\<close>, a \<open>std::exception\<close>) with its text.
\<close>

datatype exn = Error string

text \<open>
  \<open>MessageHandler\<close> with the fields of the class. \<open>m_stream\<close>, the pointer back to the
  multiplexer, is used for two calls only: \<open>getOrigin\<close>, whose answer is the argument \<open>origin\<close>
  of \<open>onMessage\<close> below (streams are identified by numbers), and \<open>stop\<close>, which is the signal
  \<open>onMessage\<close> returns. \<open>cout\<close> collects what the handler itself prints on standard output.
  \<open>m_headLen\<close> is an \<open>unsigned int\<close> and \<open>m_messagesSeen\<close> a \<open>long long\<close> that starts at 0 and
  grows by one for each message sent on; they are only compared, so both are natural
  numbers here, as are the counts of the two decorators.
\<close>

datatype signal = Continue | Stop

record MessageHandler =
  m_streamNames :: "(nat \<rightharpoonup> string) option"
  m_headLen :: nat
  m_out :: transport
  m_messagesSeen :: nat
  m_startTv :: timeval
  m_endTv :: timeval
  cout :: "string list"

text \<open>
  Lines 144 to 150: when stream names are set, the name of the origin is looked up,
  \<open>BB_THROW_EXASSERT\<close> throws when there is none, and the name is printed.
\<close>

definition print_origin :: "MessageHandler \<Rightarrow> nat \<Rightarrow> exn + MessageHandler" where
  "print_origin h origin =
     (case m_streamNames h of
        None \<Rightarrow> Inr h
      | Some names \<Rightarrow>
          (case names origin of
             None \<Rightarrow> Inl (Error ''failed to find name for stream'')
           | Some name \<Rightarrow> Inr (h\<lparr>cout := cout h @ [''file:'' @ name @ '' '']\<rparr>)))"

text \<open>Lines 152 to 160, after the name has been printed.\<close>

definition dispatch :: "MessageHandler \<Rightarrow> msg \<Rightarrow> MessageHandler \<times> signal" where
  "dispatch h m =
     (if m_headLen h > 0 \<and> m_messagesSeen h \<ge> m_headLen h then (h, Stop)
      else if time_sent m \<ge> m_endTv h then (h, Stop)
      else if time_sent m \<ge> m_startTv h
        then (h\<lparr>m_out := send (m_out h) m, m_messagesSeen := m_messagesSeen h + 1\<rparr>, Continue)
      else (h, Continue))"

definition onMessage :: "MessageHandler \<Rightarrow> nat \<Rightarrow> msg \<Rightarrow> exn + MessageHandler \<times> signal" where
  "onMessage h origin m =
     (case print_origin h origin of
        Inl e \<Rightarrow> Inl e
      | Inr h1 \<Rightarrow> Inr (dispatch h1 m))"



section \<open>Input streams and the multiplexer\<close>

text \<open>
  bbreader reads through the stream classes of the \<open>bb\<close> library (\<open>bb/io/DFStream.h\<close>):
  \<open>DFReader\<close>, \<open>SingleDFStream\<close>, \<open>DFSearchReader\<close>, \<open>FixedDelayDFStream\<close> and
  \<open>DFStreamMplex\<close>. Their code is not among the sources; \<open>main\<close> only constructs them and
  calls \<open>add\<close> and \<open>run\<close>. The definitions of this section follow the description of these
  components in the specification.
\<close>

text \<open>
  Modelled from the spec: the result of \<open>next()\<close> on a Source, "Message | EndOfStream |
  ReadError" (the readers of \<open>bb/io/DFStream.h\<close> are missing).
\<close>

datatype next_result = Message msg | EndOfStream | ReadError

text \<open>
  Modelled from the spec: a Source, "an ordered underlying stream of Messages plus internal
  cursor state" that "may fail mid-read" (the readers of \<open>bb/io/DFStream.h\<close> are missing).
  \<open>records\<close> are the messages still to be read; after the last one the source answers
  \<open>EndOfStream\<close>, or \<open>ReadError\<close> when it is \<open>corrupt\<close>.
\<close>

record source =
  records :: "msg list"
  corrupt :: bool

text \<open>
  Modelled from the spec: \<open>next()\<close> of a Source (\<open>IHistMStream::next\<close> is missing). "A read
  past the last record returns EndOfStream, which is terminal and idempotent"; "a corrupt
  record or I/O fault returns ReadError".
\<close>

definition source_next :: "source \<Rightarrow> next_result \<times> source" where
  "source_next s =
     (case records s of
        m # ms \<Rightarrow> (Message m, s\<lparr>records := ms\<rparr>)
      | [] \<Rightarrow> (if corrupt s then ReadError else EndOfStream, s))"

text \<open>
  Modelled from the spec: a stream as it is added to the multiplexer (\<open>bb::HistMStreamPtr\<close>;
  the class is missing): the reader, the fixed delay when \<open>main\<close> wrapped the reader in a
  \<open>FixedDelayDFStream\<close>, and the identity that \<open>getOrigin\<close> reports for it.
\<close>

record hist_stream =
  stream_id :: nat
  src :: source
  delay :: "duration option"

text \<open>
  Modelled from the spec: the Delay-Shifted Source (\<open>bb::FixedDelayDFStream\<close> is missing),
  which "returns a Message whose ordering time is inner_time + fixed_delay"; the usage text
  of bbreader says the same ("add 1 second to each message").
\<close>

definition shift :: "duration option \<Rightarrow> msg \<Rightarrow> msg" where
  "shift d m = (case d of None \<Rightarrow> m | Some x \<Rightarrow> m\<lparr>time_sent := time_sent m + x\<rparr>)"

text \<open>
  Modelled from the spec: \<open>next()\<close> of a stream added to the multiplexer
  (\<open>FixedDelayDFStream::next\<close> is missing): it "delegates to the inner Source" and shifts the
  message.
\<close>

definition stream_next :: "hist_stream \<Rightarrow> next_result \<times> hist_stream" where
  "stream_next s =
     (case source_next (src s) of
        (Message m, src') \<Rightarrow> (Message (shift (delay s) m), s\<lparr>src := src'\<rparr>)
      | (EndOfStream, src') \<Rightarrow> (EndOfStream, s\<lparr>src := src'\<rparr>)
      | (ReadError, src') \<Rightarrow> (ReadError, s\<lparr>src := src'\<rparr>))"

text \<open>
  Modelled from the spec: the SourceSet of the Multiplexer (\<open>bb::DFStreamMplex\<close> is missing),
  "a mapping from Source identity to its next not-yet-consumed Message (or empty)", kept in
  registration order.
\<close>

type_synonym slot = "hist_stream \<times> msg option"

text \<open>
  Modelled from the spec: \<open>add(source)\<close> of the Multiplexer (\<open>DFStreamMplex::add\<close> is missing);
  the cache of a new stream is empty ("lazily populated").
\<close>

definition mplex_add :: "slot list \<Rightarrow> hist_stream \<Rightarrow> slot list" where
  "mplex_add slots s = slots @ [(s, None)]"

text \<open>
  Modelled from the spec: filling the empty cache slots of the Multiplexer (part of
  \<open>DFStreamMplex::run\<close>, which is missing). "A Source that returns EndOfStream is removed
  from the live set without affecting others. A Source that returns ReadError is logged as
  a partial failure and removed from the live set"; the second component tells whether a
  \<open>ReadError\<close> was met.
\<close>

fun refill :: "slot list \<Rightarrow> (hist_stream \<times> msg) list \<times> bool" where
  "refill [] = ([], False)"
| "refill ((s, Some m) # slots) = (case refill slots of (live, err) \<Rightarrow> ((s, m) # live, err))"
| "refill ((s, None) # slots) =
     (case refill slots of
        (live, err) \<Rightarrow>
          (case stream_next s of
             (Message m, s') \<Rightarrow> ((s', m) # live, err)
           | (EndOfStream, s') \<Rightarrow> (live, err)
           | (ReadError, s') \<Rightarrow> (live, True)))"

text \<open>
  Modelled from the spec: a live stream whose cached message stays for the next round
  (part of \<open>DFStreamMplex::run\<close>, which is missing).
\<close>

definition cached :: "hist_stream \<times> msg \<Rightarrow> slot" where
  "cached x = (fst x, Some (snd x))"

text \<open>
  Modelled from the spec: "Consume that Message (clear its cache slot)" (part of
  \<open>DFStreamMplex::run\<close>, which is missing).
\<close>

definition consumed :: "hist_stream \<times> msg \<Rightarrow> slot" where
  "consumed x = (fst x, None)"

text \<open>
  Modelled from the spec: the selection step of the Multiplexer (part of
  \<open>DFStreamMplex::run\<close>, which is missing): "select the Source whose cached Message has the
  minimum ordering time among all live Sources; ties are broken deterministically by Source
  registration order (first-added wins)". The result is the chosen stream with its message,
  and the slots for the next round.
\<close>

fun pick :: "(hist_stream \<times> msg) list \<Rightarrow> ((hist_stream \<times> msg) \<times> slot list) option" where
  "pick [] = None"
| "pick (x # xs) =
     (case pick xs of
        None \<Rightarrow> Some (x, [consumed x])
      | Some (y, slots) \<Rightarrow>
          if time_sent (snd x) \<le> time_sent (snd y)
          then Some (x, consumed x # map cached xs)
          else Some (y, cached x # slots))"

text \<open>
  Modelled from the spec: what a run of the Multiplexer leaves behind
  (\<open>DFStreamMplex::run\<close> is missing): the state of the consumer, the messages delivered to
  it in order, whether the run "is flagged as having encountered a file error", and the
  exception of the consumer that ended it, if any.
\<close>

record 'h run_result =
  final :: 'h
  delivered :: "msg list"
  failed :: bool
  thrown :: "exn option"

text \<open>The messages a slot still holds, and those of all slots.\<close>

fun slot_msgs :: "slot \<Rightarrow> msg list" where
  "slot_msgs (s, None) = map (shift (delay s)) (records (src s))"
| "slot_msgs (s, Some m) = m # map (shift (delay s)) (records (src s))"

definition pending :: "slot list \<Rightarrow> msg list" where
  "pending slots = concat (map slot_msgs slots)"

lemma slot_msgs_cached: "slot_msgs (cached (s, m)) = m # slot_msgs (s, None)"
  by (simp add: cached_def)

lemma slot_msgs_consumed: "slot_msgs (consumed (s, m)) = slot_msgs (s, None)"
  by (simp add: consumed_def)

lemma pending_Cons: "pending (x # xs) = slot_msgs x @ pending xs"
  by (simp add: pending_def)

lemma pending_Nil: "pending [] = []"
  by (simp add: pending_def)

lemma refill_pending: "refill slots = (live, err) \<Longrightarrow> pending (map cached live) = pending slots"
proof (induction slots arbitrary: live err rule: refill.induct)
  case 1
  then show ?case by simp
next
  case (2 s m slots)
  then show ?case by (auto simp: pending_Cons slot_msgs_cached split: prod.splits)
next
  case (3 s slots)
  then show ?case
    by (auto simp: pending_Cons slot_msgs_cached stream_next_def source_next_def
          split: prod.splits next_result.splits list.splits if_splits)
qed

lemma pick_None: "pick live = None \<longleftrightarrow> live = []"
  by (cases live) (auto split: option.splits prod.splits)

lemma pick_pending:
  "pick live = Some ((s, m), slots) \<Longrightarrow> mset (pending (map cached live)) = add_mset m (mset (pending slots))"
proof (induction live arbitrary: s m slots)
  case Nil
  then show ?case by simp
next
  case (Cons x xs)
  show ?case
  proof (cases "pick xs")
    case None
    then have "xs = []" by (simp add: pick_None)
    with Cons.prems show ?thesis
      by (cases x) (auto simp: pending_Cons pending_Nil slot_msgs_cached slot_msgs_consumed)
  next
    case (Some r)
    obtain y slots' where r: "r = (y, slots')" by (cases r)
    obtain t n where y: "y = (t, n)" by (cases y)
    from Cons.IH [of t n slots'] Some r y
    have ih: "mset (pending (map cached xs)) = add_mset n (mset (pending slots'))" by simp
    show ?thesis
    proof (cases "time_sent (snd x) \<le> time_sent (snd y)")
      case True
      with Cons.prems Some r show ?thesis
        by (cases x) (auto simp: pending_Cons slot_msgs_cached slot_msgs_consumed)
    next
      case False
      with Cons.prems Some r y have "s = t" "m = n" "slots = cached x # slots'" by auto
      with ih show ?thesis by (cases x) (simp add: pending_Cons)
    qed
  qed
qed

lemma pending_decreases:
  assumes "refill slots = (live, e)" and "pick live = Some ((s, m), slots')"
  shows "length (pending slots') < length (pending slots)"
proof -
  have "mset (pending slots) = add_mset m (mset (pending slots'))"
    using assms pick_pending refill_pending by metis
  then have "size (mset (pending slots)) = Suc (size (mset (pending slots')))" by simp
  then show ?thesis by simp
qed

text \<open>
  Modelled from the spec: \<open>run(consumer)\<close> of the Multiplexer (\<open>DFStreamMplex::run\<close> is
  missing). Each round fills the empty cache slots, selects, clears the slot of the selected
  stream and invokes the consumer with the message. "The loop terminates when the live set
  is empty or when the consumer returns Stop"; a read error "does not stop the merge". The
  consumer is \<open>cb\<close>, called with its own state, the identity of the stream the message
  comes from and the message; an exception of the consumer ends the run, and the consumer
  keeps the state it had before the call.
\<close>

function mplex_run ::
  "('h \<Rightarrow> nat \<Rightarrow> msg \<Rightarrow> exn + 'h \<times> signal) \<Rightarrow> slot list \<Rightarrow> bool \<Rightarrow> 'h \<Rightarrow> 'h run_result" where
  "mplex_run cb slots err h =
     (case refill slots of
        (live, e) \<Rightarrow>
          (case pick live of
             None \<Rightarrow> \<lparr>final = h, delivered = [], failed = (err \<or> e), thrown = None\<rparr>
           | Some ((s, m), slots') \<Rightarrow>
               (case cb h (stream_id s) m of
                  Inl x \<Rightarrow> \<lparr>final = h, delivered = [m], failed = (err \<or> e), thrown = Some x\<rparr>
                | Inr (h', Stop) \<Rightarrow> \<lparr>final = h', delivered = [m], failed = (err \<or> e), thrown = None\<rparr>
                | Inr (h', Continue) \<Rightarrow>
                    (let r = mplex_run cb slots' (err \<or> e) h'
                     in r\<lparr>delivered := m # delivered r\<rparr>))))"
  by pat_completeness auto
termination
proof (relation "measure (\<lambda>(cb, slots, err, h). length (pending slots))")
  show "wf (measure (\<lambda>(cb :: 'h \<Rightarrow> nat \<Rightarrow> msg \<Rightarrow> exn + 'h \<times> signal, slots, err :: bool, h :: 'h). length (pending slots)))"
    by simp
next
  fix cb :: "'h \<Rightarrow> nat \<Rightarrow> msg \<Rightarrow> exn + 'h \<times> signal"
  fix slots err and h :: 'h
  fix live e picked chosen slots' s m
  assume "(live, e) = refill slots" and "pick live = Some picked"
    and "(chosen, slots') = picked" and "(s, m) = chosen"
  then have "refill slots = (live, e)" and "pick live = Some ((s, m), slots')"
    by simp_all
  then have "length (pending slots') < length (pending slots)"
    by (rule pending_decreases)
  then show "((cb, slots', err \<or> e, h'), cb, slots, err, h)
      \<in> measure (\<lambda>(cb, slots, err, h). length (pending slots))" for h'
    by simp
qed

declare mplex_run.simps [simp del]

text \<open>
  Modelled from the spec: \<open>dfm->run(&h)\<close> as \<open>main\<close> sees it, with \<open>MessageHandler::onMessage\<close>
  as the consumer (\<open>DFStreamMplex::run\<close> is missing). \<open>main\<close> learns of a failure only
  through the exception it catches around the call, so the flag of the run and an exception
  of the handler both reach it as "an exception was thrown".
\<close>

definition DFStreamMplex_run :: "slot list \<Rightarrow> MessageHandler \<Rightarrow> MessageHandler \<times> bool" where
  "DFStreamMplex_run slots h =
     (let r = mplex_run onMessage slots False h in (final r, failed r \<or> thrown r \<noteq> None))"

section \<open>The driver\<close>

text \<open>
  The reader \<open>main\<close> constructs for an input (lines 286 to 301): a \<open>DFReader\<close> on standard
  input, a \<open>SingleDFStream\<close> (file name, gzip flag), or a \<open>DFSearchReader\<close> (file name, gzip
  flag) on which \<open>search(start_tv)\<close> is called.
\<close>

datatype reader = DFReader_stdin | SingleDFStream string bool | DFSearchReader string bool timeval

text \<open>
  What \<open>main\<close> does to the outside, in program order: the usage text and error lines on
  standard error, the import of a protobuf definition file, the construction of a reader,
  a \<open>LOG_WARN\<close> line, the creation of the output file, the call of \<open>dfm->run\<close>, and the
  message count printed for \<open>--count\<close>.
\<close>

datatype event =
    Usage
  | ErrMsg string
  | ImportProto string
  | OpenReader reader
  | LogWarn
  | CreateOutput string
  | RunMplex
  | PrintCount nat

text \<open>
  How the process ends: \<open>return EXIT_SUCCESS\<close>, \<open>return EXIT_FAILURE\<close>, or a library
  exception that nothing in \<open>main\<close> catches.
\<close>

datatype exit_status = EXIT_SUCCESS | EXIT_FAILURE | Uncaught

text \<open>
  The variables the option parser fills (lines 179 to 197). \<open>help\<close> and \<open>count\<close> carry a
  suffix. \<open>compress_output\<close> and \<open>machine_mtypes\<close> change only the bytes written and are left
  out.
\<close>

record options =
  help_opt :: bool
  no_output :: bool
  binary_dgram :: bool
  print_json :: bool
  print_names :: bool
  count_opt :: bool
  linear_only :: bool
  ignore_file_errors :: bool
  head_len :: nat
  tail_len :: nat
  trim_len :: nat
  start_tv_str :: string
  end_tv_str :: string
  output_filename :: string
  proto_file_str :: string
  inputs :: "string list"

text \<open>
  What \<open>main\<close> takes from the library and the file system: the constants
  \<open>timeval_t::earliest\<close> and \<open>timeval_t::latest\<close>; \<open>timeval_t::make_time\<close> and
  \<open>boost::lexical_cast\<close> (\<open>None\<close> when they throw); the messages a reader delivers (\<open>None\<close>
  when constructing it or searching in it throws); the identity \<open>getOrigin\<close> reports for the
  \<open>FixedDelayDFStream\<close> around the reader of input \<open>k\<close>; \<open>CFile::exists\<close>; whether the output
  file can be created; and \<open>dfm->run(&h)\<close>, which returns the handler as the run left it and
  whether an exception came out of the run.
\<close>

record env =
  earliest :: timeval
  latest :: timeval
  make_time :: "string \<Rightarrow> timeval option"
  lexical_cast :: "string \<Rightarrow> duration option"
  open_reader :: "reader \<Rightarrow> source option"
  wrapper_origin :: "nat \<Rightarrow> nat"
  file_exists :: "string \<Rightarrow> bool"
  open_output :: "string \<Rightarrow> bool"
  run :: "slot list \<Rightarrow> MessageHandler \<Rightarrow> MessageHandler \<times> bool"

text \<open>
  What a call of \<open>main\<close> amounts to: the exit status, the events, the value of \<open>file_error\<close>
  after the catch clause of line 358 (before line 366 overrides it), and the messages the
  library writer has been sent once all destructors have run.
\<close>

record outcome =
  status :: exit_status
  events :: "event list"
  file_error :: bool
  emitted :: "msg list"

text \<open>
  \<open>extract_fname\<close> (lines 48 to 60): the part before the first \<open>+\<close> and the delay parsed
  from the part after it; a zero delay when there is no \<open>+\<close>. \<open>None\<close> when \<open>lexical_cast\<close>
  throws.
\<close>

definition extract_fname :: "env \<Rightarrow> string \<Rightarrow> (string \<times> duration) option" where
  "extract_fname env str =
     (if CHR ''+'' \<in> set str
      then (case lexical_cast env (tl (dropWhile (\<lambda>c. c \<noteq> CHR ''+'') str)) of
              None \<Rightarrow> None
            | Some d \<Rightarrow> Some (takeWhile (\<lambda>c. c \<noteq> CHR ''+'') str, d))
      else Some (str, 0))"

text \<open>Line 284: the last three characters, or the whole name when it is shorter, are \<open>.gz\<close>.\<close>

definition isGz :: "string \<Rightarrow> bool" where
  "isGz filename = (drop (length filename - min 3 (length filename)) filename = ''.gz'')"

text \<open>Lines 286 to 301.\<close>

definition choose_reader :: "env \<Rightarrow> options \<Rightarrow> timeval \<Rightarrow> string \<Rightarrow> reader" where
  "choose_reader env opts start_tv filename =
     (if filename = ''-'' then DFReader_stdin
      else if start_tv = earliest env \<or> linear_only opts then SingleDFStream filename (isGz filename)
      else DFSearchReader filename (isGz filename) start_tv)"

text \<open>
  What the loop over the inputs builds: the multiplexer, the stream names (keyed by the
  number of the input, which stands for the pointer \<open>df.get()\<close>), and the events so far.
\<close>

record opened =
  dfm :: "slot list"
  stream_names :: "nat \<rightharpoonup> string"
  warnings :: "event list"

text \<open>
  The body of the loop (lines 280 to 314) for input number \<open>k\<close>. An exception of
  \<open>extract_fname\<close> or of the reader is caught and logged, and the input is skipped. The
  reader is added as it is when the delay is zero, inside a \<open>FixedDelayDFStream\<close> otherwise.
  The insertion into the stream names cannot fail: the pointer of a new reader differs
  from those of the readers the multiplexer holds. For a reader added as it is,
  \<open>getOrigin\<close> is taken to report the reader itself; for one inside a
  \<open>FixedDelayDFStream\<close> the environment says what it reports.
\<close>

definition open_input :: "env \<Rightarrow> options \<Rightarrow> timeval \<Rightarrow> nat \<Rightarrow> string \<Rightarrow> opened \<Rightarrow> opened" where
  "open_input env opts start_tv k input st =
     (case extract_fname env input of
        None \<Rightarrow> st\<lparr>warnings := warnings st @ [LogWarn]\<rparr>
      | Some (filename, d) \<Rightarrow>
          (let rd = choose_reader env opts start_tv filename in
           case open_reader env rd of
             None \<Rightarrow> st\<lparr>warnings := warnings st @ [OpenReader rd, LogWarn]\<rparr>
           | Some df \<Rightarrow>
               st\<lparr>dfm := mplex_add (dfm st)
                        (if d = 0 then \<lparr>stream_id = k, src = df, delay = None\<rparr>
                         else \<lparr>stream_id = wrapper_origin env k, src = df, delay = Some d\<rparr>),
                  stream_names := (if print_names opts then (stream_names st)(k \<mapsto> filename)
                                   else stream_names st),
                  warnings := warnings st @ [OpenReader rd]\<rparr>))"

fun open_inputs :: "env \<Rightarrow> options \<Rightarrow> timeval \<Rightarrow> nat \<Rightarrow> string list \<Rightarrow> opened \<Rightarrow> opened" where
  "open_inputs env opts start_tv k [] st = st"
| "open_inputs env opts start_tv k (input # rest) st =
     open_inputs env opts start_tv (Suc k) rest (open_input env opts start_tv k input st)"

text \<open>Lines 276 to 315: a new multiplexer, no names, and the loop over all inputs.\<close>

definition opened_by :: "env \<Rightarrow> options \<Rightarrow> timeval \<Rightarrow> opened" where
  "opened_by env opts start_tv =
     open_inputs env opts start_tv 0 (inputs opts) \<lparr>dfm = [], stream_names = Map.empty, warnings = []\<rparr>"

text \<open>Lines 337 to 344.\<close>

definition choose_writer :: "options \<Rightarrow> writer" where
  "choose_writer opts =
     (if no_output opts then DevNullSendTransport
      else if binary_dgram opts then DGramWriteTransport
      else if print_json opts then JsonWriteTransport
      else TextWriteTransport)"

text \<open>Lines 346 to 354: the transport chain and the handler.\<close>

definition new_handler :: "options \<Rightarrow> timeval \<Rightarrow> timeval \<Rightarrow> opened \<Rightarrow> MessageHandler" where
  "new_handler opts start_tv end_tv st =
     \<lparr>m_streamNames = (if print_names opts \<and> \<not> no_output opts \<and> \<not> binary_dgram opts
                        then Some (stream_names st) else None),
      m_headLen = head_len opts,
      m_out = build_out (choose_writer opts) (tail_len opts) (trim_len opts),
      m_messagesSeen = 0,
      m_startTv = start_tv,
      m_endTv = end_tv,
      cout = []\<rparr>"

text \<open>
  Lines 352 to 367: the run inside \<open>try\<close>, the catch clause that sets \<open>file_error\<close> (and logs
  unless \<open>--quiet\<close>), the count, the exit status; then the destructors.
\<close>

definition merge :: "env \<Rightarrow> options \<Rightarrow> timeval \<Rightarrow> timeval \<Rightarrow> event list \<Rightarrow> opened \<Rightarrow> outcome" where
  "merge env opts start_tv end_tv ev st =
     (case run env (dfm st) (new_handler opts start_tv end_tv st) of
        (h, threw) \<Rightarrow>
          \<lparr>status = (if (if ignore_file_errors opts then False else threw) then EXIT_FAILURE else EXIT_SUCCESS),
           events = ev @ [RunMplex] @ (if threw \<and> \<not> no_output opts then [LogWarn] else [])
                      @ (if count_opt opts then [PrintCount (m_messagesSeen h)] else []),
           file_error = threw,
           emitted = destroy (m_out h)\<rparr>)"

text \<open>
  Lines 317 to 332: with an output file name, \<open>main\<close> returns when the file exists, and
  creates it otherwise (an exception of \<open>fout->open()\<close> is not caught); without one the
  output goes to standard output.
\<close>

definition open_sink :: "env \<Rightarrow> options \<Rightarrow> timeval \<Rightarrow> timeval \<Rightarrow> event list \<Rightarrow> opened \<Rightarrow> outcome" where
  "open_sink env opts start_tv end_tv ev st =
     (if output_filename opts \<noteq> []
      then (if file_exists env (output_filename opts)
            then \<lparr>status = EXIT_FAILURE, events = ev @ [ErrMsg ''error: output file exists''],
                   file_error = False, emitted = []\<rparr>
            else if \<not> open_output env (output_filename opts)
            then \<lparr>status = Uncaught, events = ev @ [CreateOutput (output_filename opts)],
                   file_error = False, emitted = []\<rparr>
            else merge env opts start_tv end_tv (ev @ [CreateOutput (output_filename opts)]) st)
      else merge env opts start_tv end_tv ev st)"

text \<open>Lines 257 and 258: the default when the string is empty, \<open>make_time\<close> otherwise.\<close>

definition parse_tv :: "env \<Rightarrow> string \<Rightarrow> timeval \<Rightarrow> timeval option" where
  "parse_tv env str dflt = (if str = [] then Some dflt else make_time env str)"

text \<open>
  An input is opened: its name and delay parse and its reader can be constructed (and, for
  a \<open>DFSearchReader\<close>, searched). All inputs are opened: the start time parses and every
  input is.
\<close>

definition opens :: "env \<Rightarrow> options \<Rightarrow> timeval \<Rightarrow> string \<Rightarrow> bool" where
  "opens env opts start_tv input =
     (case extract_fname env input of
        None \<Rightarrow> False
      | Some (filename, d) \<Rightarrow> open_reader env (choose_reader env opts start_tv filename) \<noteq> None)"

definition all_opened :: "env \<Rightarrow> options \<Rightarrow> bool" where
  "all_opened env opts =
     (case parse_tv env (start_tv_str opts) (earliest env) of
        None \<Rightarrow> False
      | Some start_tv \<Rightarrow> list_all (opens env opts start_tv) (inputs opts))"

text \<open>
  \<open>main\<close> from line 246 on, for the values the option parser has delivered: help, the
  protobuf import, the two times, the check of the range, the check for inputs, the loop
  over the inputs, the output, the run.
\<close>

definition main :: "env \<Rightarrow> options \<Rightarrow> outcome" where
  "main env opts =
     (if help_opt opts
      then \<lparr>status = EXIT_SUCCESS, events = [Usage], file_error = False, emitted = []\<rparr>
      else
        (let ev = (if proto_file_str opts \<noteq> [] then [ImportProto (proto_file_str opts)] else []) in
         case parse_tv env (start_tv_str opts) (earliest env) of
           None \<Rightarrow> \<lparr>status = Uncaught, events = ev, file_error = False, emitted = []\<rparr>
         | Some start_tv \<Rightarrow>
             (case parse_tv env (end_tv_str opts) (latest env) of
                None \<Rightarrow> \<lparr>status = Uncaught, events = ev, file_error = False, emitted = []\<rparr>
              | Some end_tv \<Rightarrow>
                  if start_tv \<ge> end_tv
                  then \<lparr>status = EXIT_FAILURE, events = ev @ [ErrMsg ''start_tv is after end_tv'', Usage],
                         file_error = False, emitted = []\<rparr>
                  else if inputs opts = []
                  then \<lparr>status = EXIT_FAILURE, events = ev @ [Usage], file_error = False, emitted = []\<rparr>
                  else
                    (let st = opened_by env opts start_tv
                     in open_sink env opts start_tv end_tv (ev @ warnings st) st))))"

section \<open>Sample data\<close>



text \<open>
  Four files: A with times 1, 2, 5; B with times 3, 4; C with time 2; and D, which breaks
  after one message at time 2.
\<close>

definition src_A :: source where
  "src_A = \<lparr>records = [\<lparr>time_sent = 1, body = 10\<rparr>, \<lparr>time_sent = 2, body = 11\<rparr>,
                        \<lparr>time_sent = 5, body = 12\<rparr>], corrupt = False\<rparr>"

definition src_B :: source where
  "src_B = \<lparr>records = [\<lparr>time_sent = 3, body = 20\<rparr>, \<lparr>time_sent = 4, body = 21\<rparr>], corrupt = False\<rparr>"

definition src_C :: source where
  "src_C = \<lparr>records = [\<lparr>time_sent = 2, body = 30\<rparr>], corrupt = False\<rparr>"

definition src_D :: source where
  "src_D = \<lparr>records = [\<lparr>time_sent = 2, body = 40\<rparr>], corrupt = True\<rparr>"

definition demo_files :: "(string \<times> source) list" where
  "demo_files = [(''A'', src_A), (''B'', src_B), (''C'', src_C), (''D'', src_D)]"

text \<open>
  An environment with these files and no others, in which a file \<open>old.out\<close> exists, a
  search reader starts at the first message not before the start time, and the
  multiplexer is the one of the previous section.
\<close>

definition demo_env :: env where
  "demo_env =
     \<lparr>earliest = - 1000, latest = 1000,
      make_time = map_of [(''2'', 2), (''3'', 3), (''5'', 5)],
      lexical_cast = map_of [(''1.0'', 1)],
      open_reader = (\<lambda>rd. case rd of
          DFReader_stdin \<Rightarrow> None
        | SingleDFStream f gz \<Rightarrow> map_of demo_files f
        | DFSearchReader f gz t \<Rightarrow>
            map_option (\<lambda>s. s\<lparr>records := dropWhile (\<lambda>m. time_sent m < t) (records s)\<rparr>)
              (map_of demo_files f)),
      wrapper_origin = (\<lambda>k. k),
      file_exists = (\<lambda>f. f = ''old.out''),
      open_output = (\<lambda>f. True),
      run = DFStreamMplex_run\<rparr>"

text \<open>The options bbreader has when it is called with the three files A, B, C alone.\<close>

definition demo_opts :: options where
  "demo_opts =
     \<lparr>help_opt = False, no_output = False, binary_dgram = False, print_json = False,
      print_names = False, count_opt = False, linear_only = False, ignore_file_errors = False,
      head_len = 0, tail_len = 0, trim_len = 0, start_tv_str = [], end_tv_str = [],
      output_filename = [], proto_file_str = [], inputs = [''A'', ''B'', ''C'']\<rparr>"

text \<open>A stream added without delay, and a consumer that counts and never stops.\<close>

definition plain :: "nat \<Rightarrow> source \<Rightarrow> hist_stream" where
  "plain k s = \<lparr>stream_id = k, src = s, delay = None\<rparr>"

definition keep_going :: "nat \<Rightarrow> nat \<Rightarrow> msg \<Rightarrow> exn + nat \<times> signal" where
  "keep_going h origin m = Inr (Suc h, Continue)"

text \<open>The messages a slot still holds are in time order.\<close>

definition ordered :: "slot \<Rightarrow> bool" where
  "ordered x = sorted (map time_sent (slot_msgs x))"

text \<open>The events of the loop over the inputs: a reader constructed, a warning logged.\<close>

definition harmless :: "event \<Rightarrow> bool" where
  "harmless ev = (case ev of OpenReader rd \<Rightarrow> True | LogWarn \<Rightarrow> True | _ \<Rightarrow> False)"

section \<open>Window buffers\<close>

lemma tail_pop_eq: "tail_pop num ms = drop (length ms - num) ms"
proof (induction ms)
  case Nil
  show ?case by simp
next
  case (Cons m ms)
  show ?case
  proof (cases "length (m # ms) > num")
    case True
    then have "length (m # ms) - num = Suc (length ms - num)" by simp
    with True Cons show ?thesis by simp
  next
    case False
    then show ?thesis by simp
  qed
qed

lemma trim_pop_eq:
  "trim_pop num ms = (take (length ms - num) ms, drop (length ms - num) ms)"
proof (induction ms)
  case Nil
  show ?case by simp
next
  case (Cons m ms)
  show ?case
  proof (cases "length (m # ms) > num")
    case True
    then have "length (m # ms) - num = Suc (length ms - num)" by simp
    with True Cons show ?thesis by simp
  next
    case False
    then show ?thesis by simp
  qed
qed

lemma lastn_append:
  "drop (length (drop (length xs - n) xs @ ys) - n) (drop (length xs - n) xs @ ys)
     = drop (length (xs @ ys) - n) (xs @ ys)"
proof (cases "length xs \<le> n")
  case True
  then show ?thesis by simp
next
  case False
  then have a: "length (drop (length xs - n) xs @ ys) - n = length ys" by simp
  from False have b: "length (xs @ ys) - n = (length xs - n) + length ys" by simp
  show ?thesis unfolding a b by (simp add: add.commute)
qed

lemma firstn_append:
  "take (length xs - n) xs @ take (length (drop (length xs - n) xs @ ys) - n) (drop (length xs - n) xs @ ys)
     = take (length (xs @ ys) - n) (xs @ ys)"
proof (cases "length xs \<le> n")
  case True
  then show ?thesis by simp
next
  case False
  define k where "k = length xs - n"
  from False have a: "length (drop k xs @ ys) - n = length ys" by (simp add: k_def)
  from False have b: "length (xs @ ys) - n = k + length ys" by (simp add: k_def)
  have c: "k \<le> length xs" by (simp add: k_def)
  have "take (k + length ys) (xs @ ys) = take k (xs @ ys) @ take (length ys) (drop k (xs @ ys))"
    by (rule take_add)
  also have "\<dots> = take k xs @ take (length ys) (drop k xs @ ys)"
    using c by simp
  finally show ?thesis unfolding k_def [symmetric] a b by simp
qed

lemma length_tail_send: "length (tail_send num buf m) \<le> num"
  by (simp add: tail_send_def tail_pop_eq)

lemma tail_sends:
  "length buf \<le> num \<Longrightarrow> foldl (tail_send num) buf ms = drop (length (buf @ ms) - num) (buf @ ms)"
proof (induction ms arbitrary: buf)
  case Nil
  then show ?case by simp
next
  case (Cons m ms)
  have "foldl (tail_send num) buf (m # ms) = foldl (tail_send num) (tail_send num buf m) ms"
    by simp
  also have "\<dots> = drop (length (tail_send num buf m @ ms) - num) (tail_send num buf m @ ms)"
    by (rule Cons.IH) (rule length_tail_send)
  also have "\<dots> = drop (length ((buf @ [m]) @ ms) - num) ((buf @ [m]) @ ms)"
    unfolding tail_send_def tail_pop_eq by (rule lastn_append)
  finally show ?case by simp
qed

lemma trim_sends_eq:
  "length buf \<le> num \<Longrightarrow>
   trim_sends num buf ms = (take (length (buf @ ms) - num) (buf @ ms), drop (length (buf @ ms) - num) (buf @ ms))"
proof (induction ms arbitrary: buf)
  case Nil
  then show ?case by simp
next
  case (Cons m ms)
  let ?b = "buf @ [m]"
  let ?r = "drop (length ?b - num) ?b"
  have r: "length ?r \<le> num" by simp
  have "trim_sends num buf (m # ms) =
          (take (length ?b - num) ?b @ take (length (?r @ ms) - num) (?r @ ms),
           drop (length (?r @ ms) - num) (?r @ ms))"
    by (simp add: trim_send_def trim_pop_eq Cons.IH [OF r] del: length_append drop_append take_append append_assoc)
  also have "\<dots> = (take (length (?b @ ms) - num) (?b @ ms), drop (length (?b @ ms) - num) (?b @ ms))"
    by (simp only: firstn_append lastn_append)
  finally show ?case by simp
qed

text \<open>
  \<open>sends\<close> is one \<open>send\<close> after the other, and \<open>send\<close> and the destructor of
  \<open>TailedOutput\<close> satisfy the equations that the bodies of the classes spell out.
\<close>

lemma sends_Nil: "sends t [] = t"
  by (induction t) simp_all

lemma trim_sends_append:
  "trim_sends num buf (ms @ ms') =
     (case trim_sends num buf ms of
        (sent, rest) \<Rightarrow> (case trim_sends num rest ms' of (sent', rest') \<Rightarrow> (sent @ sent', rest')))"
proof (induction ms arbitrary: buf)
  case Nil
  show ?case by (simp split: prod.splits)
next
  case (Cons m ms)
  show ?case by (simp add: Cons.IH split: prod.splits)
qed

lemma sends_append: "sends t (ms @ ms') = sends (sends t ms) ms'"
proof (induction t arbitrary: ms ms')
  case (Writer w rcvd)
  show ?case by simp
next
  case (TailedOutput out num buf)
  show ?case by simp
next
  case (TrimmedOutput out num buf)
  show ?case by (simp add: trim_sends_append TrimmedOutput.IH split: prod.splits)
qed

lemma sends_foldl: "sends t ms = foldl send t ms"
proof (induction ms arbitrary: t)
  case Nil
  show ?case by (simp add: sends_Nil)
next
  case (Cons m ms)
  have "sends t (m # ms) = sends (sends t [m]) ms"
    using sends_append [of t "[m]" ms] by simp
  then show ?case by (simp add: Cons.IH send_def)
qed

lemma send_TrimmedOutput:
  "send (TrimmedOutput out num buf) m =
     TrimmedOutput (foldl send out (fst (trim_pop num (buf @ [m])))) num (snd (trim_pop num (buf @ [m])))"
proof -
  have "send (TrimmedOutput out num buf) m =
          TrimmedOutput (sends out (fst (trim_pop num (buf @ [m])))) num (snd (trim_pop num (buf @ [m])))"
    by (simp add: send_def trim_send_def split: prod.splits)
  then show ?thesis by (simp only: sends_foldl)
qed

lemma send_TailedOutput:
  "send (TailedOutput out num buf) m = TailedOutput out num (tail_pop num (buf @ [m]))"
  by (simp add: send_def tail_send_def)


lemma destroy_TailedOutput:
  "destroy (TailedOutput out num buf) = destroy (foldl send out buf)"
  by (simp only: destroy.simps sends_foldl)

lemma drop_take_positions:
  "b \<le> length xs \<Longrightarrow> drop a (take b xs) = map (\<lambda>i. xs ! i) [a..<b]"
  by (rule nth_equalityI) auto

lemma build_out_both:
  "0 < T \<Longrightarrow> 0 < M \<Longrightarrow> build_out w M T = TrimmedOutput (TailedOutput (Writer w []) M []) T []"
  by (simp add: build_out_def)

lemma destroy_trim_tail:
  "destroy (sends (TrimmedOutput (TailedOutput (Writer w []) M []) T []) ms)
     = drop (length ms - T - M) (take (length ms - T) ms)"
proof -
  let ?fwd = "take (length ms - T) ms"
  have "sends (TrimmedOutput (TailedOutput (Writer w []) M []) T []) ms
          = TrimmedOutput (TailedOutput (Writer w []) M (drop (length ?fwd - M) ?fwd)) T (drop (length ms - T) ms)"
    by (simp add: trim_sends_eq tail_sends del: length_take drop_take)
  moreover have "length ?fwd = length ms - T" by simp
  ultimately show ?thesis by simp
qed

text \<open>
  Claim C2. A stream \<open>ms\<close> of \<open>K\<close> messages is sent, one \<open>send\<close> after the other, into the chain
  that \<open>main\<close> builds for \<open>trim_len = T > 0\<close> and \<open>tail_len = M > 0\<close>. After the destructors
  have run, the library writer has been sent exactly the messages at the positions from
  \<open>max 0 (K - T - M)\<close> up to, not including, \<open>K - T\<close>, in their order; nothing when \<open>K \<le> T\<close>.
\<close>

theorem trim_then_tail:
  assumes "0 < T" and "0 < M"
  shows "destroy (foldl send (build_out w M T) ms)
           = map (\<lambda>i. ms ! i) [nat (max 0 (int (length ms) - int T - int M)) ..< length ms - T]
         \<and> (length ms \<le> T \<longrightarrow> destroy (foldl send (build_out w M T) ms) = [])"
proof -
  have lo: "nat (max 0 (int (length ms) - int T - int M)) = length ms - T - M" by simp
  have "destroy (foldl send (build_out w M T) ms) = drop (length ms - T - M) (take (length ms - T) ms)"
    using assms by (simp only: build_out_both sends_foldl [symmetric] destroy_trim_tail)
  also have "\<dots> = map (\<lambda>i. ms ! i) [length ms - T - M ..< length ms - T]"
    by (rule drop_take_positions) simp
  finally show ?thesis unfolding lo by simp
qed

text \<open>
  Claim C8. A \<open>TailedOutput\<close> or \<open>TrimmedOutput\<close> is constructed with count \<open>N\<close> (its buffer
  empty) and \<open>send\<close> is called with the messages \<open>ms\<close>, one after the other. Then the buffer
  holds at most \<open>N\<close> messages, and they are the last ones sent, in the order sent. One
  \<open>send\<close> leaves at most \<open>N\<close> messages whatever the buffer held before.
\<close>

theorem window_buffer_bounded:
  "length (buf_of (foldl send (TailedOutput out N []) ms)) \<le> N
   \<and> buf_of (foldl send (TailedOutput out N []) ms) = drop (length ms - N) ms
   \<and> length (buf_of (foldl send (TrimmedOutput out N []) ms)) \<le> N
   \<and> buf_of (foldl send (TrimmedOutput out N []) ms) = drop (length ms - N) ms
   \<and> length (buf_of (send (TailedOutput out N buf) m)) \<le> N
   \<and> length (buf_of (send (TrimmedOutput out N buf) m)) \<le> N"
proof -
  have "buf_of (foldl send (TailedOutput out N []) ms) = drop (length ms - N) ms"
    by (simp add: sends_foldl [symmetric] tail_sends)
  moreover have "buf_of (foldl send (TrimmedOutput out N []) ms) = drop (length ms - N) ms"
    by (simp add: sends_foldl [symmetric] trim_sends_eq)
  moreover have "length (drop (length ms - N) ms) \<le> N"
    by simp
  moreover have "length (buf_of (send (TailedOutput out N buf) m)) \<le> N"
    by (simp add: send_TailedOutput tail_pop_eq)
  moreover have "length (buf_of (send (TrimmedOutput out N buf) m)) \<le> N"
    by (simp add: send_TrimmedOutput trim_pop_eq)
  ultimately show ?thesis by simp
qed


text \<open>
  Claim C2 at \<open>K = 5\<close>, \<open>T = 1\<close>, \<open>M = 2\<close>: the messages at positions 2 and 3 arrive; and at
  \<open>K = 1\<close>: nothing arrives.
\<close>

theorem trim_then_tail_witness:
  "(0::nat) < 1 \<and> (0::nat) < 2
   \<and> destroy (foldl send (build_out TextWriteTransport 2 1)
         [\<lparr>time_sent = 1, body = 10\<rparr>, \<lparr>time_sent = 2, body = 11\<rparr>, \<lparr>time_sent = 3, body = 12\<rparr>,
          \<lparr>time_sent = 4, body = 13\<rparr>, \<lparr>time_sent = 5, body = 14\<rparr>])
       = [\<lparr>time_sent = 3, body = 12\<rparr>, \<lparr>time_sent = 4, body = 13\<rparr>]
   \<and> destroy (foldl send (build_out TextWriteTransport 2 1) [\<lparr>time_sent = 1, body = 10\<rparr>]) = []"
proof -
  have T: "(0::nat) < 1" and M: "(0::nat) < 2" by simp_all
  show ?thesis
    using trim_then_tail [OF T M, where w = TextWriteTransport and ms =
        "[\<lparr>time_sent = 1, body = 10\<rparr>, \<lparr>time_sent = 2, body = 11\<rparr>, \<lparr>time_sent = 3, body = 12\<rparr>,
          \<lparr>time_sent = 4, body = 13\<rparr>, \<lparr>time_sent = 5, body = 14\<rparr>]"]
      trim_then_tail [OF T M, where w = TextWriteTransport and ms = "[\<lparr>time_sent = 1, body = 10\<rparr>]"]
    by (simp add: upt_rec)
qed

section \<open>The range filter\<close>







section \<open>The multiplexer\<close>

lemma time_sent_shift: "time_sent (shift d m) = (case d of None \<Rightarrow> time_sent m | Some x \<Rightarrow> time_sent m + x)"
  by (simp add: shift_def split: option.splits)

lemma sorted_shift:
  "sorted (map time_sent ms) \<Longrightarrow> sorted (map time_sent (map (shift d) ms))"
  by (induction ms) (auto simp: time_sent_shift split: option.splits)

lemma refill_ordered:
  "refill slots = (live, err) \<Longrightarrow> \<forall>x\<in>set slots. ordered x \<Longrightarrow> \<forall>y\<in>set live. ordered (cached y)"
proof (induction slots arbitrary: live err rule: refill.induct)
  case 1
  then show ?case by simp
next
  case (2 s m slots)
  then show ?case by (auto simp: cached_def split: prod.splits)
next
  case (3 s slots)
  then show ?case
    by (auto simp: cached_def ordered_def stream_next_def source_next_def
          split: prod.splits next_result.splits list.splits if_splits)
qed

lemma pick_least:
  "pick live = Some ((s, m), slots) \<Longrightarrow> \<forall>y\<in>set live. time_sent m \<le> time_sent (snd y)"
proof (induction live arbitrary: s m slots)
  case Nil
  then show ?case by simp
next
  case (Cons x xs)
  show ?case
  proof (cases "pick xs")
    case None
    then have "xs = []" by (simp add: pick_None)
    with Cons.prems show ?thesis by auto
  next
    case (Some r)
    obtain t n slots' where r: "r = ((t, n), slots')" by (cases r) auto
    from Cons.IH [of t n slots'] Some r
    have ih: "\<forall>y\<in>set xs. time_sent n \<le> time_sent (snd y)" by simp
    from Cons.prems Some r ih show ?thesis
      by (auto split: if_splits)
  qed
qed

lemma pick_slots:
  "pick live = Some (x, slots) \<Longrightarrow> x \<in> set live \<and> set slots \<subseteq> insert (consumed x) (cached ` set live)"
proof (induction live arbitrary: x slots)
  case Nil
  then show ?case by simp
next
  case (Cons y ys)
  show ?case
  proof (cases "pick ys")
    case None
    with Cons.prems show ?thesis by auto
  next
    case (Some r)
    obtain z slots' where r: "r = (z, slots')" by (cases r)
    from Cons.IH [of z slots'] Some r
    have ih: "z \<in> set ys \<and> set slots' \<subseteq> insert (consumed z) (cached ` set ys)" by simp
    from Cons.prems Some r ih show ?thesis
      by (auto split: if_splits)
  qed
qed

lemma ordered_consumed: "ordered (cached x) \<Longrightarrow> ordered (consumed x)"
  by (cases x) (simp add: ordered_def cached_def consumed_def)

lemma pick_ordered:
  assumes "pick live = Some ((s, m), slots)" and "\<forall>y\<in>set live. ordered (cached y)"
  shows "\<forall>x\<in>set slots. ordered x"
proof
  fix x assume "x \<in> set slots"
  with pick_slots [OF assms(1)] have "x = consumed (s, m) \<or> x \<in> cached ` set live" by auto
  moreover from pick_slots [OF assms(1)] assms(2) have "ordered (cached (s, m))" by auto
  ultimately show "ordered x" using assms(2) ordered_consumed by auto
qed

lemma pending_set: "set (pending slots) = (\<Union>x\<in>set slots. set (slot_msgs x))"
  by (simp add: pending_def)

lemma pick_bound:
  assumes "pick live = Some ((s, m), slots)" and "\<forall>y\<in>set live. ordered (cached y)"
  shows "\<forall>n\<in>set (pending slots). time_sent m \<le> time_sent n"
proof
  fix n assume "n \<in> set (pending slots)"
  then have "n \<in># mset (pending slots)" by simp
  then have "n \<in># mset (pending (map cached live))"
    using pick_pending [OF assms(1)] by simp
  then have "n \<in> set (pending (map cached live))" by simp
  then obtain y where y: "y \<in> set live" and n: "n \<in> set (slot_msgs (cached y))"
    by (auto simp: pending_set)
  obtain t k where yk: "y = (t, k)" by (cases y)
  from assms(2) y have "ordered (cached y)" by simp
  with n yk have "time_sent k \<le> time_sent n"
    by (auto simp: ordered_def slot_msgs_cached)
  moreover from pick_least [OF assms(1)] y yk have "time_sent m \<le> time_sent k" by auto
  ultimately show "time_sent m \<le> time_sent n" by simp
qed


lemma mplex_run_induct [case_names step]:
  fixes cb :: "'h \<Rightarrow> nat \<Rightarrow> msg \<Rightarrow> exn + 'h \<times> signal"
  assumes "\<And>(cb :: 'h \<Rightarrow> nat \<Rightarrow> msg \<Rightarrow> exn + 'h \<times> signal) slots err h.
     (\<And>live e s m slots' h'.
         refill slots = (live, e) \<Longrightarrow> pick live = Some ((s, m), slots') \<Longrightarrow>
         cb h (stream_id s) m = Inr (h', Continue) \<Longrightarrow> P cb slots' (err \<or> e) h')
     \<Longrightarrow> P cb slots err h"
  shows "P cb slots err h"
proof (induction cb slots err h rule: mplex_run.induct)
  case (1 cb slots err h)
  show ?case
  proof (rule assms)
    fix live e s m slots' h'
    assume "refill slots = (live, e)" and "pick live = Some ((s, m), slots')"
      and "cb h (stream_id s) m = Inr (h', Continue)"
    then show "P cb slots' (err \<or> e) h'"
      using "1.IH" [of live e "((s, m), slots')" "(s, m)" slots' s m "(h', Continue)" h' Continue]
      by simp
  qed
qed

lemma mplex_run_empty:
  "refill slots = (live, e) \<Longrightarrow> pick live = None \<Longrightarrow>
   mplex_run cb slots err h = \<lparr>final = h, delivered = [], failed = (err \<or> e), thrown = None\<rparr>"
  by (subst mplex_run.simps) simp

lemma mplex_run_raise:
  "refill slots = (live, e) \<Longrightarrow> pick live = Some ((s, m), slots') \<Longrightarrow> cb h (stream_id s) m = Inl x \<Longrightarrow>
   mplex_run cb slots err h = \<lparr>final = h, delivered = [m], failed = (err \<or> e), thrown = Some x\<rparr>"
  by (subst mplex_run.simps) simp

lemma mplex_run_stop:
  "refill slots = (live, e) \<Longrightarrow> pick live = Some ((s, m), slots') \<Longrightarrow> cb h (stream_id s) m = Inr (h', Stop) \<Longrightarrow>
   mplex_run cb slots err h = \<lparr>final = h', delivered = [m], failed = (err \<or> e), thrown = None\<rparr>"
  by (subst mplex_run.simps) simp

lemma mplex_run_continue:
  "refill slots = (live, e) \<Longrightarrow> pick live = Some ((s, m), slots') \<Longrightarrow> cb h (stream_id s) m = Inr (h', Continue) \<Longrightarrow>
   mplex_run cb slots err h =
     (mplex_run cb slots' (err \<or> e) h')\<lparr>delivered := m # delivered (mplex_run cb slots' (err \<or> e) h')\<rparr>"
  by (subst mplex_run.simps) (simp add: Let_def)

lemma mplex_run_cases [case_names empty raise stop continue]:
  assumes "\<And>live e. refill slots = (live, e) \<Longrightarrow> pick live = None \<Longrightarrow> Q"
    and "\<And>live e s m slots' x. refill slots = (live, e) \<Longrightarrow> pick live = Some ((s, m), slots') \<Longrightarrow>
           cb h (stream_id s) m = Inl x \<Longrightarrow> Q"
    and "\<And>live e s m slots' h'. refill slots = (live, e) \<Longrightarrow> pick live = Some ((s, m), slots') \<Longrightarrow>
           cb h (stream_id s) m = Inr (h', Stop) \<Longrightarrow> Q"
    and "\<And>live e s m slots' h'. refill slots = (live, e) \<Longrightarrow> pick live = Some ((s, m), slots') \<Longrightarrow>
           cb h (stream_id s) m = Inr (h', Continue) \<Longrightarrow> Q"
  shows Q
proof -
  obtain live e where r: "refill slots = (live, e)" by (cases "refill slots")
  show Q
  proof (cases "pick live")
    case None
    with r show Q by (rule assms(1))
  next
    case (Some p)
    obtain s m slots' where p: "p = ((s, m), slots')" by (cases p) auto
    show Q
    proof (cases "cb h (stream_id s) m")
      case (Inl x)
      with r Some p show Q using assms(2) by simp
    next
      case (Inr b)
      obtain h' sg where b: "b = (h', sg)" by (cases b)
      show Q
      proof (cases sg)
        case Continue
        with r Some p Inr b show Q using assms(4) by simp
      next
        case Stop
        with r Some p Inr b show Q using assms(3) by simp
      qed
    qed
  qed
qed

lemma pick_in_pending:
  assumes "refill slots = (live, e)" and "pick live = Some ((s, m), slots')"
  shows "m \<in> set (pending slots)" and "set (pending slots') \<subseteq> set (pending slots)"
proof -
  have eq: "mset (pending slots) = add_mset m (mset (pending slots'))"
    using assms pick_pending refill_pending by metis
  then have "m \<in># mset (pending slots)" by simp
  then show "m \<in> set (pending slots)" by simp
  show "set (pending slots') \<subseteq> set (pending slots)"
  proof
    fix n assume "n \<in> set (pending slots')"
    then have "n \<in># add_mset m (mset (pending slots'))" by simp
    with eq have "n \<in># mset (pending slots)" by simp
    then show "n \<in> set (pending slots)" by simp
  qed
qed

lemma delivered_pending: "set (delivered (mplex_run cb slots err h)) \<subseteq> set (pending slots)"
proof (induction cb slots err h rule: mplex_run_induct)
  case (step cb slots err h)
  show ?case
  proof (cases rule: mplex_run_cases [where slots = slots and cb = cb and h = h])
    case (empty live e)
    then show ?thesis by (simp add: mplex_run_empty)
  next
    case (raise live e s m slots' x)
    then show ?thesis using pick_in_pending(1) by (simp add: mplex_run_raise)
  next
    case (stop live e s m slots' h')
    then show ?thesis using pick_in_pending(1) by (simp add: mplex_run_stop)
  next
    case (continue live e s m slots' h')
    from step [OF continue] pick_in_pending [OF continue(1,2)]
    show ?thesis by (auto simp: mplex_run_continue [where cb = cb and h = h, OF continue])
  qed
qed

lemma delivered_sorted:
  "\<forall>x\<in>set slots. ordered x \<Longrightarrow> sorted (map time_sent (delivered (mplex_run cb slots err h)))"
proof (induction cb slots err h rule: mplex_run_induct)
  case (step cb slots err h)
  show ?case
  proof (cases rule: mplex_run_cases [where slots = slots and cb = cb and h = h])
    case (empty live e)
    then show ?thesis by (simp add: mplex_run_empty)
  next
    case (raise live e s m slots' x)
    then show ?thesis by (simp add: mplex_run_raise)
  next
    case (stop live e s m slots' h')
    then show ?thesis by (simp add: mplex_run_stop)
  next
    case (continue live e s m slots' h')
    from refill_ordered [OF continue(1) step.prems]
    have live: "\<forall>y\<in>set live. ordered (cached y)" .
    from pick_ordered [OF continue(2) live]
    have "sorted (map time_sent (delivered (mplex_run cb slots' (err \<or> e) h')))"
      by (rule step.IH [OF continue])
    moreover from pick_bound [OF continue(2) live] delivered_pending [of cb slots' "err \<or> e" h']
    have "\<forall>n\<in>set (delivered (mplex_run cb slots' (err \<or> e) h')). time_sent m \<le> time_sent n"
      by auto
    ultimately show ?thesis by (simp add: mplex_run_continue [where cb = cb and h = h, OF continue])
  qed
qed

lemma refill_corrupt:
  "refill slots = (live, e) \<Longrightarrow>
   (e \<or> (\<exists>y\<in>set live. corrupt (src (fst y)))) = (\<exists>x\<in>set slots. corrupt (src (fst x)))"
proof (induction slots arbitrary: live e rule: refill.induct)
  case 1
  then show ?case by simp
next
  case (2 s m slots)
  obtain live' e' where r: "refill slots = (live', e')" by (cases "refill slots")
  from "2.IH" [OF r] "2.prems" r show ?case by auto
next
  case (3 s slots)
  obtain live' e' where r: "refill slots = (live', e')" by (cases "refill slots")
  from "3.IH" [OF r] "3.prems" r show ?case
    by (cases "records (src s)"; cases "corrupt (src s)")
       (force simp: stream_next_def source_next_def)+
qed

lemma pick_streams: "pick live = Some (x, slots) \<Longrightarrow> map fst slots = map fst live"
proof (induction live arbitrary: x slots)
  case Nil
  then show ?case by simp
next
  case (Cons y ys)
  show ?case
  proof (cases "pick ys")
    case None
    then have "ys = []" by (simp add: pick_None)
    with Cons.prems show ?thesis by (auto simp: consumed_def)
  next
    case (Some r)
    obtain z slots' where r: "r = (z, slots')" by (cases r)
    from Cons.IH [of z slots'] Some r have "map fst slots' = map fst ys" by simp
    with Cons.prems Some r show ?thesis
      by (auto simp: consumed_def cached_def comp_def split: if_splits)
  qed
qed

lemma pick_corrupt:
  assumes "pick live = Some (x, slots)"
  shows "(\<exists>x\<in>set slots. corrupt (src (fst x))) = (\<exists>y\<in>set live. corrupt (src (fst y)))"
proof -
  have "set (map fst slots) = set (map fst live)"
    using pick_streams [OF assms] by simp
  then have "fst ` set slots = fst ` set live" by simp
  then show ?thesis by (metis (no_types, lifting) image_iff)
qed

lemma run_to_exhaustion:
  fixes cb :: "'h \<Rightarrow> nat \<Rightarrow> msg \<Rightarrow> exn + 'h \<times> signal"
  assumes "\<forall>h origin m. \<exists>h'. cb h origin m = Inr (h', Continue)"
  shows "mset (delivered (mplex_run cb slots err h)) = mset (pending slots)
       \<and> failed (mplex_run cb slots err h) = (err \<or> (\<exists>x\<in>set slots. corrupt (src (fst x))))
       \<and> thrown (mplex_run cb slots err h) = None"
  using assms
proof (induction cb slots err h rule: mplex_run_induct)
  case (step cb slots err h)
  show ?case
  proof (cases rule: mplex_run_cases [where slots = slots and cb = cb and h = h])
    case (empty live e)
    from empty(2) have "live = []" by (simp add: pick_None)
    with refill_pending [OF empty(1)] refill_corrupt [OF empty(1)] empty
    show ?thesis by (simp add: mplex_run_empty pending_Nil)
  next
    case (raise live e s m slots' x)
    with step.prems show ?thesis by (metis Inl_Inr_False)
  next
    case (stop live e s m slots' h')
    with step.prems show ?thesis by (metis Inr_inject prod.inject signal.distinct(1))
  next
    case (continue live e s m slots' h')
    have eq: "mset (pending slots) = add_mset m (mset (pending slots'))"
      using continue pick_pending refill_pending by metis
    from step.IH [OF continue step.prems] eq refill_corrupt [OF continue(1)] pick_corrupt [OF continue(2)]
    show ?thesis
      by (auto simp: mplex_run_continue [where cb = cb and h = h, OF continue])
  qed
qed

lemma foldl_mplex_add: "foldl mplex_add slots streams = slots @ map (\<lambda>s. (s, None)) streams"
  by (induction streams arbitrary: slots) (simp_all add: mplex_add_def)

lemma pending_added:
  "pending (map (\<lambda>s. (s, None)) streams) = concat (map (\<lambda>s. map (shift (delay s)) (records (src s))) streams)"
  by (induction streams) (simp_all add: pending_Nil pending_Cons)

text \<open>
  Claim C1. The streams \<open>streams\<close> are added to a new multiplexer in this order and the
  multiplexer is run with any consumer \<open>cb\<close>. When the messages of every stream are in
  non-decreasing time order, so are the messages delivered to the consumer, whether the
  run ends because the streams are exhausted, because the consumer stops it, or because
  the consumer throws.
\<close>

theorem mplex_output_sorted:
  fixes cb :: "'h \<Rightarrow> nat \<Rightarrow> msg \<Rightarrow> exn + 'h \<times> signal"
  assumes "\<forall>s\<in>set streams. sorted (map time_sent (records (src s)))"
  shows "sorted (map time_sent (delivered (mplex_run cb (foldl mplex_add [] streams) False h)))"
proof -
  have "\<forall>x\<in>set (map (\<lambda>s. (s, None :: msg option)) streams). ordered x"
  proof
    fix x :: slot
    assume "x \<in> set (map (\<lambda>s. (s, None)) streams)"
    then obtain s where s: "s \<in> set streams" and x: "x = (s, None)" by auto
    from assms s have "sorted (map time_sent (records (src s)))" by simp
    then have "sorted (map time_sent (map (shift (delay s)) (records (src s))))"
      by (rule sorted_shift)
    with x show "ordered x" by (simp only: ordered_def slot_msgs.simps)
  qed
  then show ?thesis
    by (simp only: foldl_mplex_add append_Nil delivered_sorted)
qed

text \<open>
  Claim C4. The multiplexer is run with a consumer that never stops and never throws. Then
  every message of every stream is delivered, those of a stream that ends in a read error
  up to the error and those of all other streams to their end; the run is flagged exactly
  when one of the streams ends in a read error; and no exception of the consumer ends it.
  A stream whose next read is a read error is dropped from the live set by the refill, which
  reports the error.
\<close>

theorem read_error_isolated:
  fixes cb :: "'h \<Rightarrow> nat \<Rightarrow> msg \<Rightarrow> exn + 'h \<times> signal"
  assumes "\<forall>h origin m. \<exists>h'. cb h origin m = Inr (h', Continue)"
  shows "mset (delivered (mplex_run cb (foldl mplex_add [] streams) False h))
           = mset (concat (map (\<lambda>s. map (shift (delay s)) (records (src s))) streams))
       \<and> failed (mplex_run cb (foldl mplex_add [] streams) False h) = (\<exists>s\<in>set streams. corrupt (src s))
       \<and> thrown (mplex_run cb (foldl mplex_add [] streams) False h) = None
       \<and> (records (src s) = [] \<and> corrupt (src s) \<longrightarrow>
            refill ((s, None) # slots) = (fst (refill slots), True))"
proof -
  have a: "(\<exists>x\<in>set (map (\<lambda>s. (s, None)) streams). corrupt (src (fst x))) = (\<exists>s\<in>set streams. corrupt (src s))"
    by auto
  have b: "records (src s) = [] \<and> corrupt (src s) \<longrightarrow>
            refill ((s, None) # slots) = (fst (refill slots), True)"
    by (auto simp: stream_next_def source_next_def split: prod.splits)
  from run_to_exhaustion [OF assms, of "map (\<lambda>s. (s, None)) streams" False h] a b
  show ?thesis
    by (simp only: foldl_mplex_add append_Nil pending_added) simp
qed

lemma src_simps:
  "records src_A = [\<lparr>time_sent = 1, body = 10\<rparr>, \<lparr>time_sent = 2, body = 11\<rparr>, \<lparr>time_sent = 5, body = 12\<rparr>]"
  "records src_B = [\<lparr>time_sent = 3, body = 20\<rparr>, \<lparr>time_sent = 4, body = 21\<rparr>]"
  "records src_C = [\<lparr>time_sent = 2, body = 30\<rparr>]"
  "records src_D = [\<lparr>time_sent = 2, body = 40\<rparr>]"
  "corrupt src_A = False" "corrupt src_B = False" "corrupt src_C = False" "corrupt src_D = True"
  by (simp_all add: src_A_def src_B_def src_C_def src_D_def)

text \<open>Claim C1 for the files A, B and C.\<close>

theorem mplex_output_sorted_witness:
  "sorted (map time_sent (records src_A)) \<and> sorted (map time_sent (records src_B))
   \<and> sorted (map time_sent (records src_C))
   \<and> sorted (map time_sent (delivered (mplex_run keep_going
        (foldl mplex_add [] [plain 0 src_A, plain 1 src_B, plain 2 src_C]) False 0)))"
proof -
  have h: "\<forall>s\<in>set [plain 0 src_A, plain 1 src_B, plain 2 src_C]. sorted (map time_sent (records (src s)))"
    by (simp add: plain_def src_simps)
  from mplex_output_sorted [OF h, of keep_going 0] show ?thesis by (simp add: src_simps)
qed

text \<open>
  Claim C4 for the files A, D and B: D breaks after its first message, all six messages
  are delivered, and the run is flagged.
\<close>

theorem read_error_isolated_witness:
  "(\<forall>h origin m. \<exists>h'. keep_going h origin m = Inr (h', Continue))
   \<and> mset (delivered (mplex_run keep_going (foldl mplex_add [] [plain 0 src_A, plain 1 src_D, plain 2 src_B]) False 0))
       = mset (records src_A @ records src_D @ records src_B)
   \<and> failed (mplex_run keep_going (foldl mplex_add [] [plain 0 src_A, plain 1 src_D, plain 2 src_B]) False 0)"
proof -
  have h: "\<forall>h origin m. \<exists>h'. keep_going h origin m = Inr (h', Continue)"
    by (simp add: keep_going_def)
  from h read_error_isolated [OF h, of "[plain 0 src_A, plain 1 src_D, plain 2 src_B]" 0 "plain 1 src_D" "[]"]
  show ?thesis
    by (simp add: plain_def shift_def src_simps)
qed

section \<open>The driver, from the range check to the exit status\<close>

lemma written_sends: "prefix (written t) (written (sends t ms))"
  by (induction t arbitrary: ms) (auto split: prod.splits)

lemma written_destroy: "prefix (written t) (destroy t)"
proof (induction t rule: destroy.induct)
  case (1 w rcvd)
  show ?case by simp
next
  case (2 out num buf)
  have "prefix (written out) (written (sends out buf))" by (rule written_sends)
  with 2 show ?case by (auto intro: prefix_order.trans)
next
  case (3 out num buf)
  then show ?case by simp
qed

lemma open_input_warnings:
  "\<forall>ev\<in>set (warnings st). harmless ev \<Longrightarrow>
   \<forall>ev\<in>set (warnings (open_input env opts start_tv k input st)). harmless ev"
  by (auto simp: open_input_def harmless_def Let_def split: option.splits prod.splits)

lemma open_inputs_warnings:
  "\<forall>ev\<in>set (warnings st). harmless ev \<Longrightarrow>
   \<forall>ev\<in>set (warnings (open_inputs env opts start_tv k ins st)). harmless ev"
proof (induction ins arbitrary: k st)
  case Nil
  then show ?case by simp
next
  case (Cons input rest)
  from Cons.prems have "\<forall>ev\<in>set (warnings (open_input env opts start_tv k input st)). harmless ev"
    by (rule open_input_warnings)
  then show ?case by (simp add: Cons.IH)
qed

lemma opened_warnings:
  "ev \<in> set (warnings (opened_by env opts start_tv)) \<Longrightarrow> harmless ev"
  using open_inputs_warnings
    [of "\<lparr>dfm = [], stream_names = Map.empty, warnings = []\<rparr>" env opts start_tv 0 "inputs opts"]
  by (simp add: opened_by_def)

lemma merge_fields:
  "RunMplex \<in> set (events (merge env opts start_tv end_tv ev st))"
  "status (merge env opts start_tv end_tv ev st) =
     (if file_error (merge env opts start_tv end_tv ev st) \<and> \<not> ignore_file_errors opts
      then EXIT_FAILURE else EXIT_SUCCESS)"
  "\<exists>h. run env (dfm st) (new_handler opts start_tv end_tv st)
          = (h, file_error (merge env opts start_tv end_tv ev st))
       \<and> emitted (merge env opts start_tv end_tv ev st) = destroy (m_out h)"
  by (auto simp: merge_def split: prod.splits)

lemma open_sink_cases:
  "open_sink env opts start_tv end_tv ev st =
     (if output_filename opts \<noteq> [] \<and> file_exists env (output_filename opts)
      then \<lparr>status = EXIT_FAILURE, events = ev @ [ErrMsg ''error: output file exists''],
             file_error = False, emitted = []\<rparr>
      else if output_filename opts \<noteq> [] \<and> \<not> open_output env (output_filename opts)
      then \<lparr>status = Uncaught, events = ev @ [CreateOutput (output_filename opts)],
             file_error = False, emitted = []\<rparr>
      else merge env opts start_tv end_tv
             (ev @ (if output_filename opts \<noteq> [] then [CreateOutput (output_filename opts)] else [])) st)"
  by (simp add: open_sink_def)

lemma harmless_simps:
  "\<not> harmless RunMplex" "\<not> harmless (CreateOutput f)" "\<not> harmless (ImportProto f)"
  "\<not> harmless Usage" "\<not> harmless (ErrMsg s)"
  by (simp_all add: harmless_def)

lemma no_run_in_warnings: "RunMplex \<notin> set (warnings (opened_by env opts start_tv))"
  using opened_warnings harmless_simps(1) by blast


text \<open>
  A warning is logged in the loop exactly when an input is not opened, and every input whose
  name and delay parse has its reader constructed.
\<close>

lemma open_input_LogWarn:
  "LogWarn \<in> set (warnings (open_input env opts start_tv k input st)) \<longleftrightarrow>
     LogWarn \<in> set (warnings st) \<or> \<not> opens env opts start_tv input"
  by (auto simp: open_input_def opens_def Let_def split: option.splits prod.splits)

lemma open_inputs_LogWarn:
  "LogWarn \<in> set (warnings (open_inputs env opts start_tv k ins st)) \<longleftrightarrow>
     LogWarn \<in> set (warnings st) \<or> \<not> list_all (opens env opts start_tv) ins"
  by (induction ins arbitrary: k st) (auto simp: open_input_LogWarn)

lemma opened_LogWarn:
  "LogWarn \<in> set (warnings (opened_by env opts start_tv)) \<longleftrightarrow>
     \<not> list_all (opens env opts start_tv) (inputs opts)"
  by (simp add: opened_by_def open_inputs_LogWarn)






lemma main_reaches_merge:
  assumes "RunMplex \<in> set (events (main env opts))"
  shows "\<exists>start_tv end_tv ev.
           parse_tv env (start_tv_str opts) (earliest env) = Some start_tv
         \<and> parse_tv env (end_tv_str opts) (latest env) = Some end_tv
         \<and> main env opts = merge env opts start_tv end_tv ev (opened_by env opts start_tv)"
proof -
  from assms have nh: "\<not> help_opt opts" by (auto simp: main_def)
  from assms nh obtain start_tv where s: "parse_tv env (start_tv_str opts) (earliest env) = Some start_tv"
    by (cases "parse_tv env (start_tv_str opts) (earliest env)") (auto simp: main_def Let_def split: if_splits)
  from assms nh s obtain end_tv where e: "parse_tv env (end_tv_str opts) (latest env) = Some end_tv"
    by (cases "parse_tv env (end_tv_str opts) (latest env)") (auto simp: main_def Let_def split: if_splits)
  from assms nh s e have r: "\<not> start_tv \<ge> end_tv" and i: "inputs opts \<noteq> []"
    by (auto simp: main_def Let_def split: if_splits)
  let ?ev = "(if proto_file_str opts \<noteq> [] then [ImportProto (proto_file_str opts)] else [])
               @ warnings (opened_by env opts start_tv)"
  from nh s e r i have m: "main env opts = open_sink env opts start_tv end_tv ?ev (opened_by env opts start_tv)"
    by (simp add: main_def Let_def)
  have nw: "RunMplex \<notin> set (warnings (opened_by env opts start_tv))"
    by (rule no_run_in_warnings)
  from assms m nw have x: "\<not> (output_filename opts \<noteq> [] \<and> file_exists env (output_filename opts))"
    by (auto simp: open_sink_cases split: if_splits)
  from assms m nw x have y: "\<not> (output_filename opts \<noteq> [] \<and> \<not> open_output env (output_filename opts))"
    by (auto simp: open_sink_cases split: if_splits)
  from m x y s e show ?thesis by (auto simp: open_sink_cases)
qed

text \<open>
  When the multiplexer is run: help is not asked for, both times parse, the start time is
  before the end time, there is an input, and the output file, if one is named, does not
  exist and can be created.
\<close>

lemma run_reached_iff:
  "RunMplex \<in> set (events (main env opts)) \<longleftrightarrow>
     \<not> help_opt opts
     \<and> (\<exists>start_tv end_tv.
           parse_tv env (start_tv_str opts) (earliest env) = Some start_tv
         \<and> parse_tv env (end_tv_str opts) (latest env) = Some end_tv
         \<and> start_tv < end_tv)
     \<and> inputs opts \<noteq> []
     \<and> (output_filename opts = []
          \<or> \<not> file_exists env (output_filename opts) \<and> open_output env (output_filename opts))"
  using no_run_in_warnings [of env opts] merge_fields(1) [of env opts]
  by (auto simp: main_def Let_def open_sink_cases split: option.splits if_splits)

text \<open>
  Claim C6, amended. Whenever \<open>main\<close> gets as far as running the multiplexer: when a file
  error occurred during the run, which \<open>main\<close> records in \<open>file_error\<close> when an exception
  comes out of \<open>dfm->run\<close>, and \<open>ignore_file_errors\<close> is not set, it returns \<open>EXIT_FAILURE\<close>;
  when \<open>ignore_file_errors\<close> is set it returns \<open>EXIT_SUCCESS\<close>; and when every input was
  opened, it returns \<open>EXIT_SUCCESS\<close> if and only if no file error occurred during the run or
  \<open>ignore_file_errors\<close> is set. Nothing is said of the exit status when an input was not
  opened, the run went through and \<open>ignore_file_errors\<close> is not set. In every case the
  library writer ends with what the destructors make of the transport chain as the run
  left it, which begins with everything the writer had been sent when the run ended.
\<close>

theorem exit_status_after_run:
  assumes "RunMplex \<in> set (events (main env opts))"
  shows "(file_error (main env opts) \<and> \<not> ignore_file_errors opts \<longrightarrow>
            status (main env opts) = EXIT_FAILURE)
       \<and> (ignore_file_errors opts \<longrightarrow> status (main env opts) = EXIT_SUCCESS)
       \<and> (all_opened env opts \<longrightarrow>
            (status (main env opts) = EXIT_SUCCESS \<longleftrightarrow>
               \<not> file_error (main env opts) \<or> ignore_file_errors opts))
       \<and> (\<exists>start_tv end_tv h.
             parse_tv env (start_tv_str opts) (earliest env) = Some start_tv
           \<and> parse_tv env (end_tv_str opts) (latest env) = Some end_tv
           \<and> run env (dfm (opened_by env opts start_tv))
                  (new_handler opts start_tv end_tv (opened_by env opts start_tv))
                = (h, file_error (main env opts))
           \<and> emitted (main env opts) = destroy (m_out h)
           \<and> prefix (written (m_out h)) (emitted (main env opts)))"
proof -
  from main_reaches_merge [OF assms] obtain start_tv end_tv ev where
    s: "parse_tv env (start_tv_str opts) (earliest env) = Some start_tv" and
    e: "parse_tv env (end_tv_str opts) (latest env) = Some end_tv" and
    m: "main env opts = merge env opts start_tv end_tv ev (opened_by env opts start_tv)"
    by blast
  from merge_fields(3) [of env "opened_by env opts start_tv" opts start_tv end_tv ev] m
  obtain h where h: "run env (dfm (opened_by env opts start_tv))
                  (new_handler opts start_tv end_tv (opened_by env opts start_tv))
                = (h, file_error (main env opts))" and d: "emitted (main env opts) = destroy (m_out h)"
    by auto
  have p: "prefix (written (m_out h)) (emitted (main env opts))"
    unfolding d by (rule written_destroy)
  have st: "status (main env opts) =
     (if file_error (main env opts) \<and> \<not> ignore_file_errors opts then EXIT_FAILURE else EXIT_SUCCESS)"
    unfolding m by (rule merge_fields(2))
  from st have a: "file_error (main env opts) \<and> \<not> ignore_file_errors opts \<longrightarrow>
            status (main env opts) = EXIT_FAILURE" by simp
  from st have b: "ignore_file_errors opts \<longrightarrow> status (main env opts) = EXIT_SUCCESS" by simp
  from st have c: "all_opened env opts \<longrightarrow>
            (status (main env opts) = EXIT_SUCCESS \<longleftrightarrow>
               \<not> file_error (main env opts) \<or> ignore_file_errors opts)" by simp
  from a b c s e h d p show ?thesis by blast
qed

text \<open>
  Claim C7, amended. When help is not asked for, both times parse and the end time is
  before the start time, \<open>main\<close> returns \<open>EXIT_FAILURE\<close> and has done nothing but import the
  protobuf definition file, when one is given, and write the error line and the usage text
  to standard error: no reader has been constructed, no output file created, the
  multiplexer has not run and no message has been sent to a writer.
\<close>

theorem eager_rejection:
  assumes "\<not> help_opt opts"
    and "parse_tv env (start_tv_str opts) (earliest env) = Some start_tv"
    and "parse_tv env (end_tv_str opts) (latest env) = Some end_tv"
    and "end_tv < start_tv"
  shows "status (main env opts) = EXIT_FAILURE
       \<and> events (main env opts) =
           (if proto_file_str opts \<noteq> [] then [ImportProto (proto_file_str opts)] else [])
             @ [ErrMsg ''start_tv is after end_tv'', Usage]
       \<and> emitted (main env opts) = []
       \<and> \<not> file_error (main env opts)"
  using assms by (simp add: main_def Let_def)


text \<open>
  Claim C9. For the input \<open>-\<close>, whatever the options, the start time and the environment,
  the reader is the \<open>DFReader\<close> on standard input, never a \<open>DFSearchReader\<close>, and it is added
  to the multiplexer as it is, without a \<open>FixedDelayDFStream\<close> around it, so that the
  multiplexer gets from it what the reader delivers, unchanged.
\<close>

theorem stdin_marker:
  "extract_fname env ''-'' = Some (''-'', 0)
   \<and> choose_reader env opts start_tv ''-'' = DFReader_stdin
   \<and> open_input env opts start_tv k ''-'' st =
     (case open_reader env DFReader_stdin of
        None \<Rightarrow> st\<lparr>warnings := warnings st @ [OpenReader DFReader_stdin, LogWarn]\<rparr>
      | Some df \<Rightarrow>
          st\<lparr>dfm := mplex_add (dfm st) \<lparr>stream_id = k, src = df, delay = None\<rparr>,
             stream_names := (if print_names opts then (stream_names st)(k \<mapsto> ''-'') else stream_names st),
             warnings := warnings st @ [OpenReader DFReader_stdin]\<rparr>)
   \<and> stream_next \<lparr>stream_id = k, src = df, delay = None\<rparr> =
       (case source_next df of (r, df') \<Rightarrow> (r, \<lparr>stream_id = k, src = df', delay = None\<rparr>))"
proof -
  have name: "extract_fname env ''-'' = Some (''-'', 0)"
    by (simp add: extract_fname_def)
  have rd: "choose_reader env opts start_tv ''-'' = DFReader_stdin"
    by (simp add: choose_reader_def)
  have op: "open_input env opts start_tv k ''-'' st =
     (case open_reader env DFReader_stdin of
        None \<Rightarrow> st\<lparr>warnings := warnings st @ [OpenReader DFReader_stdin, LogWarn]\<rparr>
      | Some df \<Rightarrow>
          st\<lparr>dfm := mplex_add (dfm st) \<lparr>stream_id = k, src = df, delay = None\<rparr>,
             stream_names := (if print_names opts then (stream_names st)(k \<mapsto> ''-'') else stream_names st),
             warnings := warnings st @ [OpenReader DFReader_stdin]\<rparr>)"
    by (simp add: open_input_def name rd split: option.splits)
  have nx: "stream_next \<lparr>stream_id = k, src = df, delay = None\<rparr> =
       (case source_next df of (r, df') \<Rightarrow> (r, \<lparr>stream_id = k, src = df', delay = None\<rparr>))"
    by (simp add: stream_next_def shift_def split: prod.splits next_result.splits)
  from name rd op nx show ?thesis by simp
qed

text \<open>
  With a delay after the marker the code reads standard input as well, and wraps the
  reader like any other.
\<close>

lemma stdin_with_delay:
  assumes "lexical_cast env ds = Some d" and "d \<noteq> 0" and "open_reader env DFReader_stdin = Some df"
  shows "dfm (open_input env opts start_tv k (''-+'' @ ds) st)
           = mplex_add (dfm st) \<lparr>stream_id = wrapper_origin env k, src = df, delay = Some d\<rparr>"
  using assms by (simp add: open_input_def extract_fname_def choose_reader_def)

lemmas demo_simps = main_def Let_def parse_tv_def demo_env_def demo_opts_def demo_files_def
  opened_by_def open_input_def extract_fname_def choose_reader_def isGz_def mplex_add_def open_sink_def merge_def
  new_handler_def choose_writer_def build_out_def DFStreamMplex_run_def mplex_run.simps
  stream_next_def source_next_def shift_def consumed_def cached_def onMessage_def print_origin_def
  dispatch_def send_def src_A_def src_B_def src_C_def src_D_def

lemma demo_missing_input:
  "main demo_env (demo_opts\<lparr>inputs := [''A'', ''missing'', ''B'']\<rparr>) =
     \<lparr>status = EXIT_SUCCESS,
      events = [OpenReader (SingleDFStream ''A'' False), OpenReader (SingleDFStream ''missing'' False),
                LogWarn, OpenReader (SingleDFStream ''B'' False), RunMplex],
      file_error = False,
      emitted = [\<lparr>time_sent = 1, body = 10\<rparr>, \<lparr>time_sent = 2, body = 11\<rparr>, \<lparr>time_sent = 3, body = 20\<rparr>,
              \<lparr>time_sent = 4, body = 21\<rparr>, \<lparr>time_sent = 5, body = 12\<rparr>]\<rparr>"
  by (simp add: demo_simps)

lemma demo_read_error:
  "main demo_env (demo_opts\<lparr>inputs := [''A'', ''D'']\<rparr>) =
     \<lparr>status = EXIT_FAILURE,
      events = [OpenReader (SingleDFStream ''A'' False), OpenReader (SingleDFStream ''D'' False),
                RunMplex, LogWarn],
      file_error = True,
      emitted = [\<lparr>time_sent = 1, body = 10\<rparr>, \<lparr>time_sent = 2, body = 11\<rparr>, \<lparr>time_sent = 2, body = 40\<rparr>,
              \<lparr>time_sent = 5, body = 12\<rparr>]\<rparr>"
  by (simp add: demo_simps)

lemma demo_existing_output:
  "main demo_env (demo_opts\<lparr>output_filename := ''old.out''\<rparr>) =
     \<lparr>status = EXIT_FAILURE,
      events = [OpenReader (SingleDFStream ''A'' False), OpenReader (SingleDFStream ''B'' False),
                OpenReader (SingleDFStream ''C'' False), ErrMsg ''error: output file exists''],
      file_error = False,
      emitted = []\<rparr>"
  by (simp add: demo_simps)



lemma demo_all_files:
  "main demo_env demo_opts =
     \<lparr>status = EXIT_SUCCESS,
      events = [OpenReader (SingleDFStream ''A'' False), OpenReader (SingleDFStream ''B'' False),
                OpenReader (SingleDFStream ''C'' False), RunMplex],
      file_error = False,
      emitted = [\<lparr>time_sent = 1, body = 10\<rparr>, \<lparr>time_sent = 2, body = 11\<rparr>, \<lparr>time_sent = 2, body = 30\<rparr>,
                 \<lparr>time_sent = 3, body = 20\<rparr>, \<lparr>time_sent = 4, body = 21\<rparr>, \<lparr>time_sent = 5, body = 12\<rparr>]\<rparr>"
  by (simp add: demo_simps)

lemma demo_bad_range:
  "main demo_env (demo_opts\<lparr>start_tv_str := ''5'', end_tv_str := ''3''\<rparr>) =
     \<lparr>status = EXIT_FAILURE, events = [ErrMsg ''start_tv is after end_tv'', Usage],
      file_error = False, emitted = []\<rparr>"
  by (simp add: demo_simps)

lemma demo_bad_range_proto:
  "main demo_env (demo_opts\<lparr>start_tv_str := ''5'', end_tv_str := ''3'', proto_file_str := ''defs.proto''\<rparr>) =
     \<lparr>status = EXIT_FAILURE,
      events = [ImportProto ''defs.proto'', ErrMsg ''start_tv is after end_tv'', Usage],
      file_error = False, emitted = []\<rparr>"
  by (simp add: demo_simps)

text \<open>
  Claim C5, evaluated. bbreader is called with the inputs A, \<open>missing\<close> and B, where \<open>missing\<close>
  cannot be opened, and without \<open>ignore_file_errors\<close>. The messages of A and B are written,
  merged in time order, and the exit status is \<open>EXIT_SUCCESS\<close>: the failure to open is logged
  and not reported.
\<close>

theorem open_failure_not_reported:
  "open_reader demo_env (SingleDFStream ''missing'' False) = None
   \<and> \<not> ignore_file_errors (demo_opts\<lparr>inputs := [''A'', ''missing'', ''B'']\<rparr>)
   \<and> status (main demo_env (demo_opts\<lparr>inputs := [''A'', ''missing'', ''B'']\<rparr>)) = EXIT_SUCCESS
   \<and> mset (emitted (main demo_env (demo_opts\<lparr>inputs := [''A'', ''missing'', ''B'']\<rparr>)))
        = mset (records src_A @ records src_B)
   \<and> sorted (map time_sent (emitted (main demo_env (demo_opts\<lparr>inputs := [''A'', ''missing'', ''B'']\<rparr>))))"
  unfolding demo_missing_input
  by (simp add: demo_env_def demo_opts_def demo_files_def src_simps)

text \<open>
  Claim C6 as stated fails: with an output file that exists, no exception comes out of a
  run (there is none) and \<open>ignore_file_errors\<close> is not set, yet the exit status is not
  \<open>EXIT_SUCCESS\<close>.
\<close>

theorem exit_status_counterexample:
  "\<not> (status (main demo_env (demo_opts\<lparr>output_filename := ''old.out''\<rparr>)) = EXIT_SUCCESS
       \<longleftrightarrow> \<not> file_error (main demo_env (demo_opts\<lparr>output_filename := ''old.out''\<rparr>))
            \<or> ignore_file_errors (demo_opts\<lparr>output_filename := ''old.out''\<rparr>))"
  unfolding demo_existing_output by simp

text \<open>
  Claim C6, amended, for the inputs A and D: the run is reached, D breaks, the exit status
  is \<open>EXIT_FAILURE\<close>, and all four messages have been written; and for the inputs A, B and
  C: all are opened, the run goes through, and the exit status is \<open>EXIT_SUCCESS\<close>.
\<close>

theorem exit_status_after_run_witness:
  "RunMplex \<in> set (events (main demo_env (demo_opts\<lparr>inputs := [''A'', ''D'']\<rparr>)))
   \<and> file_error (main demo_env (demo_opts\<lparr>inputs := [''A'', ''D'']\<rparr>))
   \<and> \<not> ignore_file_errors (demo_opts\<lparr>inputs := [''A'', ''D'']\<rparr>)
   \<and> status (main demo_env (demo_opts\<lparr>inputs := [''A'', ''D'']\<rparr>)) = EXIT_FAILURE
   \<and> emitted (main demo_env (demo_opts\<lparr>inputs := [''A'', ''D'']\<rparr>))
       = [\<lparr>time_sent = 1, body = 10\<rparr>, \<lparr>time_sent = 2, body = 11\<rparr>, \<lparr>time_sent = 2, body = 40\<rparr>,
          \<lparr>time_sent = 5, body = 12\<rparr>]
   \<and> RunMplex \<in> set (events (main demo_env demo_opts))
   \<and> all_opened demo_env demo_opts
   \<and> \<not> file_error (main demo_env demo_opts)
   \<and> status (main demo_env demo_opts) = EXIT_SUCCESS"
proof -
  have r: "RunMplex \<in> set (events (main demo_env (demo_opts\<lparr>inputs := [''A'', ''D'']\<rparr>)))"
    unfolding demo_read_error by simp
  have f: "file_error (main demo_env (demo_opts\<lparr>inputs := [''A'', ''D'']\<rparr>))"
    unfolding demo_read_error by simp
  have i: "\<not> ignore_file_errors (demo_opts\<lparr>inputs := [''A'', ''D'']\<rparr>)"
    by (simp add: demo_opts_def)
  have s: "emitted (main demo_env (demo_opts\<lparr>inputs := [''A'', ''D'']\<rparr>))
       = [\<lparr>time_sent = 1, body = 10\<rparr>, \<lparr>time_sent = 2, body = 11\<rparr>, \<lparr>time_sent = 2, body = 40\<rparr>,
          \<lparr>time_sent = 5, body = 12\<rparr>]"
    unfolding demo_read_error by simp
  from exit_status_after_run [OF r] f i
  have x: "status (main demo_env (demo_opts\<lparr>inputs := [''A'', ''D'']\<rparr>)) = EXIT_FAILURE" by blast
  have r': "RunMplex \<in> set (events (main demo_env demo_opts))"
    unfolding demo_all_files by simp
  have f': "\<not> file_error (main demo_env demo_opts)"
    unfolding demo_all_files by simp
  have o: "all_opened demo_env demo_opts"
    by (simp add: all_opened_def opens_def parse_tv_def demo_opts_def demo_env_def extract_fname_def
          choose_reader_def isGz_def demo_files_def)
  from exit_status_after_run [OF r'] f' o
  have y: "status (main demo_env demo_opts) = EXIT_SUCCESS" by blast
  from r f i s x r' o f' y show ?thesis by simp
qed

text \<open>
  Claim C7 as stated fails: with start time 5, end time 3 and a protobuf definition file,
  the file is imported before the range is rejected.
\<close>

theorem eager_rejection_counterexample:
  "parse_tv demo_env ''5'' (earliest demo_env) = Some 5
   \<and> parse_tv demo_env ''3'' (latest demo_env) = Some 3
   \<and> status (main demo_env
         (demo_opts\<lparr>start_tv_str := ''5'', end_tv_str := ''3'', proto_file_str := ''defs.proto''\<rparr>))
       = EXIT_FAILURE
   \<and> ImportProto ''defs.proto''
       \<in> set (events (main demo_env
            (demo_opts\<lparr>start_tv_str := ''5'', end_tv_str := ''3'', proto_file_str := ''defs.proto''\<rparr>)))"
  unfolding demo_bad_range_proto by (simp add: parse_tv_def demo_env_def)

text \<open>Claim C7, amended, for start time 5 and end time 3.\<close>

theorem eager_rejection_witness:
  "\<not> help_opt (demo_opts\<lparr>start_tv_str := ''5'', end_tv_str := ''3''\<rparr>)
   \<and> parse_tv demo_env (start_tv_str (demo_opts\<lparr>start_tv_str := ''5'', end_tv_str := ''3''\<rparr>)) (earliest demo_env) = Some 5
   \<and> parse_tv demo_env (end_tv_str (demo_opts\<lparr>start_tv_str := ''5'', end_tv_str := ''3''\<rparr>)) (latest demo_env) = Some 3
   \<and> (3 :: timeval) < 5
   \<and> status (main demo_env (demo_opts\<lparr>start_tv_str := ''5'', end_tv_str := ''3''\<rparr>)) = EXIT_FAILURE
   \<and> events (main demo_env (demo_opts\<lparr>start_tv_str := ''5'', end_tv_str := ''3''\<rparr>))
       = [ErrMsg ''start_tv is after end_tv'', Usage]
   \<and> emitted (main demo_env (demo_opts\<lparr>start_tv_str := ''5'', end_tv_str := ''3''\<rparr>)) = []"
proof -
  let ?o = "demo_opts\<lparr>start_tv_str := ''5'', end_tv_str := ''3''\<rparr>"
  have a: "\<not> help_opt ?o" by (simp add: demo_opts_def)
  have b: "parse_tv demo_env (start_tv_str ?o) (earliest demo_env) = Some 5"
    by (simp add: parse_tv_def demo_env_def)
  have c: "parse_tv demo_env (end_tv_str ?o) (latest demo_env) = Some 3"
    by (simp add: parse_tv_def demo_env_def)
  have d: "(3 :: timeval) < 5" by simp
  have p: "proto_file_str ?o = []" by (simp add: demo_opts_def)
  from eager_rejection [OF a b c d] a b c d p show ?thesis by simp
qed



end
